theory Spec2Isabelle
  imports Main
begin

section \<open>JavaScript values\<close>

text \<open>
  State values are JavaScript values. A defined value is a number, a boolean or a reference
  to an object; \<open>undefined\<close> is \<open>None\<close>. Objects live in a store that maps a reference to
  the object's own enumerable properties in key order, so that \<open>===\<close> on objects is equality
  of references and two different references may hold equal properties. The store is never
  written by the code under study: every reducer result is a new object. \<open>null\<close> is left
  out: the slice type \<open>{}\<close> of the source excludes it. Numbers are integers (no \<open>NaN\<close>),
  and property names inherited from a prototype are not modelled.
\<close>

datatype jsdefined = Num int | Bool bool | Ref nat

type_synonym jsval = "jsdefined option"

type_synonym heap = "nat \<Rightarrow> (string \<times> jsval) list"

definition objectKeys :: "heap \<Rightarrow> jsdefined \<Rightarrow> string list" where
  "objectKeys H v = (case v of Ref r \<Rightarrow> map fst (H r) | _ \<Rightarrow> [])"

definition getProperty :: "heap \<Rightarrow> jsdefined \<Rightarrow> string \<Rightarrow> jsval" where
  "getProperty H v k =
     (case v of
        Ref r \<Rightarrow> (case map_of (H r) k of Some x \<Rightarrow> x | None \<Rightarrow> None)
      | _ \<Rightarrow> None)"

definition hasOwnProperty :: "heap \<Rightarrow> jsdefined \<Rightarrow> string \<Rightarrow> bool" where
  "hasOwnProperty H v k = (k \<in> set (objectKeys H v))"

text \<open>
  The package \<open>shallowequal\<close>, called by \<open>distinctUntilChanged\<close> with two arguments (no
  custom comparison): identical values are equal; otherwise both must be objects with the
  same number of keys, every key of the first an own property of the second with an
  identical value.
\<close>

definition shallowEqual :: "heap \<Rightarrow> jsval \<Rightarrow> jsval \<Rightarrow> bool" where
  "shallowEqual H objA objB =
     (if objA = objB then True
      else case (objA, objB) of
        (Some (Ref a), Some (Ref b)) \<Rightarrow>
           (let keysA = objectKeys H (Ref a); keysB = objectKeys H (Ref b) in
            if length keysA \<noteq> length keysB then False
            else list_all (\<lambda>k. hasOwnProperty H (Ref b) k
                              \<and> getProperty H (Ref a) k = getProperty H (Ref b) k) keysA)
      | _ \<Rightarrow> False)"

section \<open>Notifications of the hub\<close>

text \<open>
  The four channels of the hub carry state reports
  \<open>{type, parentContextId, key, reducer?}\<close>, destruction notifications \<open>{contextId}\<close>,
  dispatching actions \<open>{parentContextId, action}\<close> and state notifications
  \<open>{contextId, state}\<close>. A notification is tagged with its channel. Reducers \<open>'r\<close> and
  actions \<open>'a\<close> are opaque.
\<close>

datatype StateReportType = Registration | Deregistration

datatype ('r, 'a) notification =
    StateReport StateReportType string string "'r option"
  | Destruction string
  | DispatchingAction string 'a
  | State string jsdefined

definition isDispatch :: "('r, 'a) notification \<Rightarrow> bool" where
  "isDispatch n = (case n of DispatchingAction p a \<Rightarrow> True | _ \<Rightarrow> False)"

definition isStateReport :: "('r, 'a) notification \<Rightarrow> bool" where
  "isStateReport n = (case n of StateReport t p k r \<Rightarrow> True | _ \<Rightarrow> False)"

type_synonym 'r ReducersMapObject = "(string \<times> 'r option) list"

record ('r, 'o) StateBuildingBlock =
  key :: string
  stateKey :: string
  defaultState :: jsval
  reducer :: "'r option"
  routingOptions :: "'o option"
  parentContextId :: string

text \<open>
  The helpers imported by the context factory whose code is not part of the factory
  (\<open>updateReducers\<close>, \<open>withRoute\<close>, \<open>withRouteReducer\<close>) and redux's \<open>combineReducers\<close> are
  parameters of the model: nothing below depends on what they compute.
\<close>

record ('r, 'a, 'o) collaborators =
  updateReducers ::
    "'r ReducersMapObject \<Rightarrow> StateReportType \<Rightarrow> string \<Rightarrow> string \<Rightarrow> 'r option \<Rightarrow> 'r ReducersMapObject"
  combineReducers :: "'r ReducersMapObject \<Rightarrow> 'r"
  withRoute :: "string \<Rightarrow> 'a \<Rightarrow> 'a"
  withRouteReducer :: "string \<Rightarrow> 'r \<Rightarrow> 'o \<Rightarrow> 'r"

section \<open>The running context\<close>

text \<open>
  What a context holds while it runs: whether its \<open>isDestroyed$\<close> has fired, the
  accumulator of \<open>scan\<close> in \<open>reducers$\<close>, the key of \<open>distinctUntilChanged\<close>, the value
  of the \<open>BehaviorSubject\<close>, and the values the subject has passed to the subscribers of
  \<open>state$\<close>.

  One flag stands for the five \<open>takeUntil(isDestroyed$)\<close> of a context. Each of them
  subscribes its notifier to the destruction channel before it subscribes to its source,
  so on that channel the observers of a context are, in order: the notifier of the state
  subject, the notifier and then the source of the self-destruction, and the notifiers of
  the registration publishing, the state publishing and the action dispatching. The
  notifiers fire on the identity of the context, the source on the identity of its parent,
  which is a different string; the five notifiers therefore fire on the same notification
  with nothing published in between.
\<close>

record 'r ctx =
  isDestroyed :: bool
  reducers :: "'r ReducersMapObject"
  hasKey :: bool
  lastKey :: jsval
  subjectValue :: jsval
  emitted :: "jsval list"

definition contextId :: "('r, 'o) StateBuildingBlock \<Rightarrow> string" where
  "contextId b = parentContextId b @ ''.'' @ key b"

definition createDestroy ::
  "('r, 'o) StateBuildingBlock \<Rightarrow> string \<Rightarrow> ('r, 'a) notification list" where
  "createDestroy b cid =
     [StateReport Deregistration (parentContextId b) (key b) None, Destruction cid]"

definition createIsDestroyed :: "string \<Rightarrow> ('r, 'a) notification \<Rightarrow> bool" where
  "createIsDestroyed cid n = (case n of Destruction c \<Rightarrow> c = cid | _ \<Rightarrow> False)"

definition createDispatch ::
  "('r, 'a, 'o) collaborators \<Rightarrow> ('r, 'o) StateBuildingBlock \<Rightarrow> string \<Rightarrow> 'a \<Rightarrow> bool
     \<Rightarrow> ('r, 'a) notification list" where
  "createDispatch E b cid action isRoutedToThisContext =
     (let actionToDispatch = (if isRoutedToThisContext then withRoute E cid action else action)
      in [DispatchingAction (parentContextId b) actionToDispatch])"

text \<open>\<open>reducers$\<close>: the new accumulator when the report is addressed to the context.\<close>

definition createReducers ::
  "('r, 'a, 'o) collaborators \<Rightarrow> string \<Rightarrow> ('r, 'a) notification \<Rightarrow> 'r ReducersMapObject
     \<Rightarrow> 'r ReducersMapObject option" where
  "createReducers E cid n rs =
     (case n of
        StateReport t p k r \<Rightarrow> if p = cid then Some (updateReducers E rs t p k r) else None
      | _ \<Rightarrow> None)"

text \<open>\<open>contextState$\<close>: the slice at \<open>key\<close> when the state is addressed to the parent.\<close>

definition createContextState ::
  "heap \<Rightarrow> ('r, 'o) StateBuildingBlock \<Rightarrow> ('r, 'a) notification \<Rightarrow> jsval option" where
  "createContextState H b n =
     (case n of
        State c s \<Rightarrow> if c = parentContextId b then Some (getProperty H s (key b)) else None
      | _ \<Rightarrow> None)"

definition setupSelfDestructionOnParentsDestruction ::
  "('r, 'o) StateBuildingBlock \<Rightarrow> ('r, 'a) notification list \<Rightarrow> ('r, 'a) notification
     \<Rightarrow> ('r, 'a) notification list" where
  "setupSelfDestructionOnParentsDestruction b destroy n =
     (case n of
        Destruction c \<Rightarrow> if c = parentContextId b then destroy else []
      | _ \<Rightarrow> [])"

definition setupStateRegistrationPublishing ::
  "('r, 'a, 'o) collaborators \<Rightarrow> ('r, 'o) StateBuildingBlock \<Rightarrow> string \<Rightarrow> ('r, 'a) notification
     \<Rightarrow> 'r ctx \<Rightarrow> 'r ctx \<times> ('r, 'a) notification list" where
  "setupStateRegistrationPublishing E b cid n c =
     (case createReducers E cid n (reducers c) of
        None \<Rightarrow> (c, [])
      | Some rs \<Rightarrow>
          (let stateContextReducer =
                 (if length (map fst rs) > 0 then Some (combineReducers E rs) else None)
           in (c\<lparr>reducers := rs\<rparr>,
               [StateReport Registration (parentContextId b) (key b) stateContextReducer])))"

definition setupStatePublishing ::
  "heap \<Rightarrow> ('r, 'o) StateBuildingBlock \<Rightarrow> string \<Rightarrow> ('r, 'a) notification
     \<Rightarrow> ('r, 'a) notification list" where
  "setupStatePublishing H b cid n =
     (case createContextState H b n of
        None \<Rightarrow> []
      | Some None \<Rightarrow> []
      | Some (Some contextState) \<Rightarrow>
          (let keys = objectKeys H contextState;
               isSingleLevelStateOnly =
                 (length keys = 0 \<or> (length keys = 1 \<and> keys ! 0 = stateKey b))
           in if isSingleLevelStateOnly then [] else [State cid contextState]))"

text \<open>The \<open>map\<close> of \<open>createStateSubject\<close>.\<close>

definition extractState :: "heap \<Rightarrow> ('r, 'o) StateBuildingBlock \<Rightarrow> jsval \<Rightarrow> jsval" where
  "extractState H b contextState =
     (case contextState of
        None \<Rightarrow> defaultState b
      | Some cs \<Rightarrow>
          (case getProperty H cs (stateKey b) of
             None \<Rightarrow> Some cs
           | Some v \<Rightarrow> Some v))"

text \<open>
  \<open>distinctUntilChanged(shallowEqual)\<close> feeding the subject: the first value always passes,
  a later one passes when it is not shallowly equal to the last one passed.
\<close>

definition createStateSubject ::
  "heap \<Rightarrow> ('r, 'o) StateBuildingBlock \<Rightarrow> ('r, 'a) notification \<Rightarrow> 'r ctx \<Rightarrow> 'r ctx" where
  "createStateSubject H b n c =
     (case createContextState H b n of
        None \<Rightarrow> c
      | Some contextState \<Rightarrow>
          (let state = extractState H b contextState in
           if hasKey c \<and> shallowEqual H (lastKey c) state then c
           else c\<lparr>hasKey := True, lastKey := state, subjectValue := state,
                  emitted := emitted c @ [state]\<rparr>))"

definition setupActionDispatching ::
  "('r, 'o) StateBuildingBlock \<Rightarrow> string \<Rightarrow> ('r, 'a) notification \<Rightarrow> ('r, 'a) notification list" where
  "setupActionDispatching b cid n =
     (case n of
        DispatchingAction p action \<Rightarrow>
          if p = cid then [DispatchingAction (parentContextId b) action] else []
      | _ \<Rightarrow> [])"

definition publishStateRegistration ::
  "('r, 'a, 'o) collaborators \<Rightarrow> ('r, 'o) StateBuildingBlock \<Rightarrow> string
     \<Rightarrow> ('r, 'a) notification list" where
  "publishStateRegistration E b cid =
     (let finalReducer =
            (case reducer b of
               None \<Rightarrow> None
             | Some r \<Rightarrow>
                 (case routingOptions b of
                    Some opts \<Rightarrow> Some (withRouteReducer E cid r opts)
                  | None \<Rightarrow> Some r))
      in [StateReport Registration cid (stateKey b) finalReducer])"

text \<open>
  One notification reaching the subscribers of one context, in the order in which
  \<open>createStateContext\<close> subscribed them: the new state of the context and what its
  subscribers publish, in order. The notifiers of \<open>takeUntil\<close> come first; once they have
  fired, no subscriber of the context runs.
\<close>

definition react ::
  "('r, 'a, 'o) collaborators \<Rightarrow> heap \<Rightarrow> ('r, 'o) StateBuildingBlock \<Rightarrow> ('r, 'a) notification
     \<Rightarrow> 'r ctx \<Rightarrow> 'r ctx \<times> ('r, 'a) notification list" where
  "react E H b n c =
     (let cid = contextId b;
          c1 = (if createIsDestroyed cid n then c\<lparr>isDestroyed := True\<rparr> else c)
      in if isDestroyed c1 then (c1, [])
         else (case n of
                 StateReport t p k r \<Rightarrow> setupStateRegistrationPublishing E b cid n c1
               | Destruction x \<Rightarrow>
                   (c1, setupSelfDestructionOnParentsDestruction b (createDestroy b cid) n)
               | DispatchingAction p action \<Rightarrow> (c1, setupActionDispatching b cid n)
               | State x s \<Rightarrow> (createStateSubject H b n c1, setupStatePublishing H b cid n)))"

section \<open>The hub\<close>

text \<open>
  The contexts in the order of their creation, which is the order of their subscriptions on
  every channel, and the notifications published so far on the four channels.
\<close>

record ('r, 'a) hub =
  contexts :: "nat \<Rightarrow> 'r ctx"
  trace :: "('r, 'a) notification list"

text \<open>Bounds for the recursion of \<open>publish\<close>.\<close>

fun maxIdLength :: "('r, 'o) StateBuildingBlock list \<Rightarrow> nat" where
  "maxIdLength [] = 0"
| "maxIdLength (b # bs) = max (length (contextId b)) (maxIdLength bs)"

definition rank :: "('r, 'o) StateBuildingBlock list \<Rightarrow> ('r, 'a) notification \<Rightarrow> nat" where
  "rank bs n =
     (case n of
        StateReport t p k r \<Rightarrow> length p
      | DispatchingAction p a \<Rightarrow> length p
      | State c s \<Rightarrow> Suc (maxIdLength bs) - length c
      | Destruction c \<Rightarrow> Suc (maxIdLength bs) + (Suc (maxIdLength bs) - length c))"

fun maxRank :: "('r, 'o) StateBuildingBlock list \<Rightarrow> ('r, 'a) notification list \<Rightarrow> nat" where
  "maxRank bs [] = 0"
| "maxRank bs (p # ps) = max (Suc (rank bs p)) (maxRank bs ps)"

text \<open>
  Modelled from the spec: the channel contract of the hub, whose code is not among the
  sources. \<open>publish\<close> is synchronous and fans out immediately to the subscribers present
  when it is called, in subscription order; a subscriber that publishes from its callback
  is served, with everything that follows from it, before the next subscriber is.
  \<open>publish\<close> records the notification and hands it to the contexts in creation order;
  \<open>deliver\<close> lets one context after the other react and publishes what it answers;
  \<open>publishAll\<close> is a subscriber publishing several notifications in a row. \<open>deliver\<close>
  is only ever given indices of existing contexts.
\<close>

function publish ::
    "('r, 'a, 'o) collaborators \<Rightarrow> heap \<Rightarrow> ('r, 'o) StateBuildingBlock list
       \<Rightarrow> ('r, 'a) notification \<Rightarrow> ('r, 'a) hub \<Rightarrow> ('r, 'a) hub"
  and deliver ::
    "('r, 'a, 'o) collaborators \<Rightarrow> heap \<Rightarrow> ('r, 'o) StateBuildingBlock list
       \<Rightarrow> ('r, 'a) notification \<Rightarrow> nat list \<Rightarrow> ('r, 'a) hub \<Rightarrow> ('r, 'a) hub"
  and publishAll ::
    "('r, 'a, 'o) collaborators \<Rightarrow> heap \<Rightarrow> ('r, 'o) StateBuildingBlock list
       \<Rightarrow> ('r, 'a) notification list \<Rightarrow> ('r, 'a) hub \<Rightarrow> ('r, 'a) hub"
where
  "publish E H bs n h = deliver E H bs n [0..<length bs] (h\<lparr>trace := trace h @ [n]\<rparr>)"
| "deliver E H bs n [] h = h"
| "deliver E H bs n (i # is) h =
     (if i < length bs then
        (case react E H (bs ! i) n (contexts h i) of
           (c', ps) \<Rightarrow>
             deliver E H bs n is
               (publishAll E H bs ps (h\<lparr>contexts := (contexts h)(i := c')\<rparr>)))
      else deliver E H bs n is h)"
| "publishAll E H bs [] h = h"
| "publishAll E H bs (p # ps) h = publishAll E H bs ps (publish E H bs p h)"
  by pat_completeness auto

section \<open>Creating and using contexts\<close>

text \<open>
  A system is the list of the building blocks of the contexts created so far, in creation
  order, with the hub. \<open>createStateContext\<close> subscribes the new context (its initial
  state: not destroyed, empty reducer mapping, no key seen, the subject holding
  \<open>defaultState\<close>) and then publishes its registration. The handle it returns gives
  \<open>state\<close>, \<open>dispatch\<close> and \<open>destroy\<close>; a handle is named by the index of its context.
\<close>

type_synonym ('r, 'a, 'o) system = "('r, 'o) StateBuildingBlock list \<times> ('r, 'a) hub"

definition initialContext :: "('r, 'o) StateBuildingBlock \<Rightarrow> 'r ctx" where
  "initialContext b =
     \<lparr>isDestroyed = False, reducers = [], hasKey = False, lastKey = None,
      subjectValue = defaultState b, emitted = []\<rparr>"

definition createStateContext ::
  "('r, 'a, 'o) collaborators \<Rightarrow> heap \<Rightarrow> ('r, 'o) StateBuildingBlock \<Rightarrow> ('r, 'a, 'o) system
     \<Rightarrow> ('r, 'a, 'o) system" where
  "createStateContext E H b s =
     (let bs = fst s @ [b]; h = snd s; cid = contextId b
      in (bs, publishAll E H bs (publishStateRegistration E b cid)
                (h\<lparr>contexts := (contexts h)(length (fst s) := initialContext b)\<rparr>)))"

definition destroy ::
  "('r, 'a, 'o) collaborators \<Rightarrow> heap \<Rightarrow> nat \<Rightarrow> ('r, 'a, 'o) system \<Rightarrow> ('r, 'a, 'o) system" where
  "destroy E H i s =
     (fst s, publishAll E H (fst s) (createDestroy (fst s ! i) (contextId (fst s ! i))) (snd s))"

definition dispatch ::
  "('r, 'a, 'o) collaborators \<Rightarrow> heap \<Rightarrow> nat \<Rightarrow> 'a \<Rightarrow> bool \<Rightarrow> ('r, 'a, 'o) system
     \<Rightarrow> ('r, 'a, 'o) system" where
  "dispatch E H i action isRoutedToThisContext s =
     (fst s, publishAll E H (fst s)
               (createDispatch E (fst s ! i) (contextId (fst s ! i)) action isRoutedToThisContext)
               (snd s))"

definition getState :: "('r, 'a, 'o) system \<Rightarrow> nat \<Rightarrow> jsval" where
  "getState s i = subjectValue (contexts (snd s) i)"

definition contextOf :: "('r, 'a, 'o) system \<Rightarrow> nat \<Rightarrow> 'r ctx" where
  "contextOf s i = contexts (snd s) i"

text \<open>
  What can happen to a system: a context is created, a handle's \<open>destroy\<close> or \<open>dispatch\<close>
  is called (a handle exists only for a created context), or somebody else (the store at
  the root, a test) publishes a notification on a channel of the hub.
\<close>

datatype ('r, 'a, 'o) call =
    Create "('r, 'o) StateBuildingBlock"
  | Destroy nat
  | Dispatch nat 'a bool
  | Publish "('r, 'a) notification"

fun step ::
  "('r, 'a, 'o) collaborators \<Rightarrow> heap \<Rightarrow> ('r, 'a, 'o) call \<Rightarrow> ('r, 'a, 'o) system
     \<Rightarrow> ('r, 'a, 'o) system" where
  "step E H (Create b) s = createStateContext E H b s"
| "step E H (Destroy i) s = (if i < length (fst s) then destroy E H i s else s)"
| "step E H (Dispatch i a r) s = (if i < length (fst s) then dispatch E H i a r s else s)"
| "step E H (Publish n) s = (fst s, publish E H (fst s) n (snd s))"

definition run ::
  "('r, 'a, 'o) collaborators \<Rightarrow> heap \<Rightarrow> ('r, 'a, 'o) call list \<Rightarrow> ('r, 'a, 'o) system
     \<Rightarrow> ('r, 'a, 'o) system" where
  "run E H calls s = fold (step E H) calls s"

definition noContext :: "'r ctx" where
  "noContext =
     \<lparr>isDestroyed = True, reducers = [], hasKey = False, lastKey = None,
      subjectValue = None, emitted = []\<rparr>"

definition emptySystem :: "('r, 'a, 'o) system" where
  "emptySystem = ([], \<lparr>contexts = (\<lambda>i. noContext), trace = []\<rparr>)"

text \<open>
  What one context does with a sequence of notifications that reach it one after the
  other: its state at the end.
\<close>

definition reactions ::
  "('r, 'a, 'o) collaborators \<Rightarrow> heap \<Rightarrow> ('r, 'o) StateBuildingBlock \<Rightarrow> ('r, 'a) notification list
     \<Rightarrow> 'r ctx \<Rightarrow> 'r ctx" where
  "reactions E H b ns c = fold (\<lambda>n c. fst (react E H b n c)) ns c"

text \<open>
  The reducer mapping of the specification: the state reports addressed to a context (type,
  key and reducer of each), folded in arrival order through the merge utility.
\<close>

definition foldReports ::
  "('r, 'a, 'o) collaborators \<Rightarrow> string \<Rightarrow> 'r ReducersMapObject
     \<Rightarrow> (StateReportType \<times> string \<times> 'r option) list \<Rightarrow> 'r ReducersMapObject" where
  "foldReports E cid rs reports =
     foldl (\<lambda>m (t, k, r). updateReducers E m t cid k r) rs reports"

definition addressedTo :: "string \<Rightarrow> StateReportType \<times> string \<times> 'r option \<Rightarrow> ('r, 'a) notification" where
  "addressedTo cid report = (case report of (t, k, r) \<Rightarrow> StateReport t cid k r)"

text \<open>
  Every context configured with a defined default state holds a defined current state.
\<close>

definition statesDefined :: "('r, 'o) StateBuildingBlock list \<Rightarrow> ('r, 'a) hub \<Rightarrow> bool" where
  "statesDefined bs h =
     list_all (\<lambda>i. defaultState (bs ! i) \<noteq> None \<longrightarrow> subjectValue (contexts h i) \<noteq> None)
       [0..<length bs]"



section \<open>Examples\<close>

text \<open>
  Collaborators for the examples: reducers and actions are names, the merge utility
  replaces or removes the entry of a key, the combined reducer is named after its keys, a
  routed action is prefixed with the identity of its context.
\<close>

definition sampleCollaborators :: "(string, string, unit) collaborators" where
  "sampleCollaborators =
     \<lparr>updateReducers =
        (\<lambda>rs t p k r. case t of
            Registration \<Rightarrow> filter (\<lambda>e. fst e \<noteq> k) rs @ [(k, r)]
          | Deregistration \<Rightarrow> filter (\<lambda>e. fst e \<noteq> k) rs),
      combineReducers = (\<lambda>rs. concat (map fst rs)),
      withRoute = (\<lambda>cid a. cid @ ''#'' @ a),
      withRouteReducer = (\<lambda>cid r opts. r)\<rparr>"

text \<open>
  A store for the examples. Object 0 is a state \<open>{counter: #1}\<close> whose slice
  \<open>#1 = {value: #3}\<close> holds only the state key; object 2 is a state \<open>{counter: #4}\<close>
  whose slice has no state key; \<open>#3\<close> and \<open>#4\<close> are two objects \<open>{n: 1}\<close>; object 6 is
  a state \<open>{counter: #5}\<close> whose slice \<open>#5 = {value: 1, child: #3}\<close> also holds a
  child's part; object 7 is a state \<open>{other: 1}\<close> without the key.
\<close>

definition sampleHeap :: heap where
  "sampleHeap r =
     (let objects =
        [[(''counter'', Some (Ref 1))],
         [(''value'', Some (Ref 3))],
         [(''counter'', Some (Ref 4))],
         [(''n'', Some (Num 1))],
         [(''n'', Some (Num 1))],
         [(''value'', Some (Num 1)), (''child'', Some (Ref 3))],
         [(''counter'', Some (Ref 5))],
         [(''other'', Some (Num 1))]]
      in if r < length objects then objects ! r else [])"

definition sampleBlock :: "string \<Rightarrow> string \<Rightarrow> (string, unit) StateBuildingBlock" where
  "sampleBlock p k =
     \<lparr>key = k, stateKey = ''value'', defaultState = Some (Num 0), reducer = Some k,
      routingOptions = None, parentContextId = p\<rparr>"

text \<open>
  A parent, a child and a grandchild, created in this order; and one context that is sent
  two states.
\<close>

definition sampleTree :: "(string, string, unit) system" where
  "sampleTree = run sampleCollaborators sampleHeap
     [Create (sampleBlock ''root'' ''p''), Create (sampleBlock ''root.p'' ''c''),
      Create (sampleBlock ''root.p.c'' ''g'')] emptySystem"


definition sampleRun :: "(string, string, unit) system" where
  "sampleRun = run sampleCollaborators sampleHeap
     [Create (sampleBlock ''root'' ''counter''), Publish (State ''root'' (Ref 0)),
      Publish (State ''root'' (Ref 7))] emptySystem"

section \<open>Publishing terminates\<close>

text \<open>
  The identity of a context is longer than the identity of its parent. State reports and
  dispatched actions travel to ever shorter identities, states and destructions to ever
  longer ones among the identities of the contexts that exist, and a destruction is
  answered with state reports and destructions only.
\<close>

lemma maxIdLength_bound: "b \<in> set bs \<Longrightarrow> length (contextId b) \<le> maxIdLength bs"
  by (induction bs) auto

lemma parent_shorter: "length (parentContextId b) < length (contextId b)"
  by (simp add: contextId_def)

lemma react_rank:
  assumes "b \<in> set bs" and "p \<in> set (snd (react E H b n c))"
  shows "rank bs p < rank bs n"
  using assms maxIdLength_bound[OF assms(1)] parent_shorter[of b]
  by (auto simp: react_def Let_def rank_def createIsDestroyed_def
      setupStateRegistrationPublishing_def createReducers_def
      setupSelfDestructionOnParentsDestruction_def createDestroy_def
      setupActionDispatching_def setupStatePublishing_def createContextState_def
      split: notification.splits if_splits option.splits)

lemma react_maxRank:
  assumes "b \<in> set bs"
  shows "maxRank bs (snd (react E H b n c)) \<le> rank bs n"
proof -
  have "(\<forall>p\<in>set ps. rank bs p < rank bs n) \<Longrightarrow> maxRank bs ps \<le> rank bs n" for ps
    by (induction ps) auto
  then show ?thesis using react_rank[OF assms] by blast
qed

termination publish
proof (relation "inv_image (less_than <*lex*> less_than <*lex*> less_than)
     (\<lambda>x. case x of
        Inl (E, H, bs, n, h) \<Rightarrow> (rank bs n, 2::nat, 0::nat)
      | Inr (Inl (E, H, bs, n, is, h)) \<Rightarrow> (rank bs n, 1, length is)
      | Inr (Inr (E, H, bs, ps, h)) \<Rightarrow> (maxRank bs ps, 0, length ps))", goal_cases)
  case 1
  show ?case by (intro wf_inv_image wf_lex_prod wf_less_than)
next
  case (2 E H bs n h)
  show ?case by simp
next
  case (3 E H bs n i "is" h x y)
  have "maxRank bs y \<le> rank bs n"
    using react_maxRank[of "bs ! i" bs E H n "contexts h i"] 3 by (metis nth_mem snd_conv)
  then show ?case by auto
next
  case (4 E H bs n i "is" h x y)
  show ?case by simp
next
  case (5 E H bs n i "is" h)
  show ?case by simp
next
  case (6 E H bs p ps h)
  show ?case by (simp add: less_max_iff_disj)
next
  case (7 E H bs p ps h)
  show ?case by (auto simp: max_def)
qed

declare publish.simps [simp del]

section \<open>Publishing preserves what every step preserves\<close>

text \<open>
  A relation between hubs that is reflexive and transitive, holds when a notification of a
  class \<open>Q\<close> is appended to the trace and when a context reacts to a notification of a
  class \<open>K\<close>, holds between a hub and the hub after a publication, provided the subscribers
  answer a notification of \<open>K\<close> only with notifications of both classes.
\<close>

lemma publish_rel:
  fixes R :: "('r, 'a) hub \<Rightarrow> ('r, 'a) hub \<Rightarrow> bool"
  assumes refl: "\<And>h. R h h"
    and trans: "\<And>h1 h2 h3. R h1 h2 \<Longrightarrow> R h2 h3 \<Longrightarrow> R h1 h3"
    and closed: "\<And>i n c p. i < length bs \<Longrightarrow> K n \<Longrightarrow> p \<in> set (snd (react E H (bs ! i) n c))
                   \<Longrightarrow> K p \<and> Q p"
    and tr: "\<And>h n. Q n \<Longrightarrow> R h (h\<lparr>trace := trace h @ [n]\<rparr>)"
    and re: "\<And>h i n. K n \<Longrightarrow> i < length bs \<Longrightarrow>
               R h (h\<lparr>contexts := (contexts h)(i := fst (react E H (bs ! i) n (contexts h i)))\<rparr>)"
  shows "K n \<Longrightarrow> Q n \<Longrightarrow> R h (publish E H bs n h)"
    and "K n \<Longrightarrow> R h (deliver E H bs n is h)"
    and "(\<forall>p\<in>set ps. K p \<and> Q p) \<Longrightarrow> R h (publishAll E H bs ps h)"
  using assms
proof (induction E H bs n h and E H bs n "is" h and E H bs ps h rule: publish_deliver_publishAll.induct)
  case (1 E H bs n h)
  let ?h0 = "h\<lparr>trace := trace h @ [n]\<rparr>"
  have a: "R h ?h0" using 1 by blast
  have b: "R ?h0 (deliver E H bs n [0..<length bs] ?h0)"
    using 1(1)[OF 1(2) 1(4) 1(5) 1(6) 1(7) 1(8)] .
  show ?case using 1(5)[OF a b] by (simp add: publish.simps)
next
  case (2 E H bs n h)
  then show ?case by simp
next
  case (3 E H bs n i "is" h)
  show ?case
  proof (cases "i < length bs")
    case True
    obtain c' ps where r: "react E H (bs ! i) n (contexts h i) = (c', ps)" by force
    let ?h1 = "h\<lparr>contexts := (contexts h)(i := c')\<rparr>"
    let ?h2 = "publishAll E H bs ps ?h1"
    have a: "R h ?h1" using 3(9)[OF 3(4) True, of h] unfolding r fst_conv .
    have kq: "\<forall>p\<in>set ps. K p \<and> Q p" using 3(7)[OF True 3(4), of _ "contexts h i"] r by simp
    have b: "R ?h1 ?h2"
      using 3(1)[OF True r[symmetric] kq 3(5) 3(6) 3(7) 3(8) 3(9)] .
    have c: "R ?h2 (deliver E H bs n is ?h2)"
      using 3(2)[OF True r[symmetric] 3(4) 3(5) 3(6) 3(7) 3(8) 3(9)] .
    have "R h (deliver E H bs n is ?h2)" using 3(6)[OF a 3(6)[OF b c]] .
    then show ?thesis using True r by simp
  next
    case False
    then show ?thesis using 3(3)[OF False 3(4) 3(5) 3(6) 3(7) 3(8) 3(9)] by simp
  qed
next
  case (4 E H bs h)
  then show ?case by simp
next
  case (5 E H bs p ps h)
  have a: "R h (publish E H bs p h)"
    using 5(1)[OF _ _ 5(4) 5(5) 5(6) 5(7) 5(8)] 5(3) by simp
  have b: "R (publish E H bs p h) (publishAll E H bs ps (publish E H bs p h))"
    using 5(2)[OF _ 5(4) 5(5) 5(6) 5(7) 5(8)] 5(3) by simp
  show ?case using 5(5)[OF a b] by simp
qed

section \<open>What one context does\<close>

lemmas react_defs = react_def Let_def createIsDestroyed_def
      setupStateRegistrationPublishing_def createReducers_def
      setupSelfDestructionOnParentsDestruction_def createDestroy_def
      setupActionDispatching_def setupStatePublishing_def createContextState_def
      createStateSubject_def

lemma react_destroyed: "isDestroyed c \<Longrightarrow> react E H b n c = (c, [])"
  by (auto simp: react_def Let_def createIsDestroyed_def split: notification.splits)

lemma react_stays_destroyed: "isDestroyed c \<Longrightarrow> isDestroyed (fst (react E H b n c))"
  by (simp add: react_destroyed)

lemma reactions_destroyed: "isDestroyed c \<Longrightarrow> reactions E H b ns c = c"
  unfolding reactions_def by (induction ns) (simp_all add: react_destroyed)


lemma sampleBlock_fields:
  "key (sampleBlock p k) = k" "stateKey (sampleBlock p k) = ''value''"
  "defaultState (sampleBlock p k) = Some (Num 0)" "reducer (sampleBlock p k) = Some k"
  "routingOptions (sampleBlock p k) = None" "parentContextId (sampleBlock p k) = p"
  "contextId (sampleBlock p k) = p @ ''.'' @ k"
  by (simp_all add: sampleBlock_def contextId_def)

lemma shallowEqual_refl: "shallowEqual H a a"
  by (simp add: shallowEqual_def)

lemma shallowEqual_iff:
  "shallowEqual H a b \<longleftrightarrow>
     a = b \<or> (\<exists>ra rb. a = Some (Ref ra) \<and> b = Some (Ref rb)
                \<and> length (objectKeys H (Ref ra)) = length (objectKeys H (Ref rb))
                \<and> (\<forall>k\<in>set (objectKeys H (Ref ra)). hasOwnProperty H (Ref rb) k
                      \<and> getProperty H (Ref ra) k = getProperty H (Ref rb) k))"
proof (cases a)
  case None
  then show ?thesis by (simp add: shallowEqual_def)
next
  case (Some x)
  note a = this
  show ?thesis
  proof (cases b)
    case None
    then show ?thesis using a by (cases x) (simp_all add: shallowEqual_def)
  next
    case (Some y)
    then show ?thesis using a
      by (cases x; cases y) (simp_all add: shallowEqual_def Let_def list_all_iff)
  qed
qed

lemma shallowEqual_trans:
  assumes "shallowEqual H a b" and "shallowEqual H b c"
  shows "shallowEqual H a c"
proof (cases "a = b \<or> b = c")
  case True
  then show ?thesis using assms by auto
next
  case False
  from assms(1) False obtain ra rb where ab: "a = Some (Ref ra)" "b = Some (Ref rb)"
    and 1: "length (objectKeys H (Ref ra)) = length (objectKeys H (Ref rb))"
    and 2: "\<forall>k\<in>set (objectKeys H (Ref ra)). hasOwnProperty H (Ref rb) k
              \<and> getProperty H (Ref ra) k = getProperty H (Ref rb) k"
    unfolding shallowEqual_iff by blast
  from assms(2) False ab obtain rc where c: "c = Some (Ref rc)"
    and 3: "length (objectKeys H (Ref rb)) = length (objectKeys H (Ref rc))"
    and 4: "\<forall>k\<in>set (objectKeys H (Ref rb)). hasOwnProperty H (Ref rc) k
              \<and> getProperty H (Ref rb) k = getProperty H (Ref rc) k"
    unfolding shallowEqual_iff by auto
  have "\<forall>k\<in>set (objectKeys H (Ref ra)). hasOwnProperty H (Ref rc) k
              \<and> getProperty H (Ref ra) k = getProperty H (Ref rc) k"
    using 2 4 by (auto simp: hasOwnProperty_def)
  then show ?thesis unfolding shallowEqual_iff using 1 3 ab c by simp
qed

section \<open>The reducer mapping and the registration sent to the parent\<close>

lemma react_report:
  assumes "\<not> isDestroyed c"
  shows "react E H b (StateReport t (contextId b) k r) c =
     (let m = updateReducers E (reducers c) t (contextId b) k r in
      (c\<lparr>reducers := m\<rparr>,
       [StateReport Registration (parentContextId b) (key b)
          (if m \<noteq> [] then Some (combineReducers E m) else None)]))"
  using assms by (simp add: react_defs)

lemma reactions_reports:
  assumes "\<not> isDestroyed c"
  shows "reactions E H b (map (addressedTo (contextId b)) reports) c
       = c\<lparr>reducers := foldReports E (contextId b) (reducers c) reports\<rparr>"
  using assms
proof (induction reports arbitrary: c)
  case Nil
  then show ?case by (simp add: reactions_def foldReports_def)
next
  case (Cons x xs)
  obtain t k r where x: "x = (t, k, r)" by (cases x) auto
  let ?c1 = "c\<lparr>reducers := updateReducers E (reducers c) t (contextId b) k r\<rparr>"
  have "\<not> isDestroyed ?c1" using Cons.prems by simp
  from Cons.IH[OF this] show ?case
    using Cons.prems
    by (simp add: reactions_def foldReports_def x addressedTo_def react_report Let_def)
qed

text \<open>
  C4. A live context receives the state reports addressed to it one after the other, from
  any state. After each of them its reducer mapping is the fold, in arrival order, of the
  reports through the merge utility, and the context publishes exactly one registration
  for its own key to its parent: it carries the combination of the mapping when the
  mapping is not empty, and no reducer (\<open>undefined\<close>) when the mapping is empty.
\<close>

theorem registration_carries_composite:
  assumes "\<not> isDestroyed c"
  shows "let cid = contextId b;
             c' = reactions E H b (map (addressedTo cid) reports) c;
             m = foldReports E cid (reducers c) (reports @ [report])
         in react E H b (addressedTo cid report) c' =
              (c'\<lparr>reducers := m\<rparr>,
               [StateReport Registration (parentContextId b) (key b)
                  (if m = [] then None else Some (combineReducers E m))])"
proof -
  obtain t k r where x: "report = (t, k, r)" by (cases report) auto
  let ?c' = "c\<lparr>reducers := foldReports E (contextId b) (reducers c) reports\<rparr>"
  have l: "\<not> isDestroyed ?c'" using assms by simp
  show ?thesis
    using react_report[OF l, of E H b t k r]
    by (simp add: reactions_reports[OF assms] x addressedTo_def Let_def foldReports_def)
qed

theorem registration_carries_composite_witness:
  "\<not> isDestroyed (initialContext (sampleBlock ''root'' ''counter'')) \<and>
   snd (react sampleCollaborators sampleHeap (sampleBlock ''root'' ''counter'')
          (StateReport Registration ''root.counter'' ''child'' (Some ''r2''))
          (reactions sampleCollaborators sampleHeap (sampleBlock ''root'' ''counter'')
             [StateReport Registration ''root.counter'' ''value'' (Some ''r1'')]
             (initialContext (sampleBlock ''root'' ''counter''))))
     = [StateReport Registration ''root'' ''counter'' (Some ''valuechild'')] \<and>
   snd (react sampleCollaborators sampleHeap (sampleBlock ''root'' ''counter'')
          (StateReport Deregistration ''root.counter'' ''value'' None)
          (reactions sampleCollaborators sampleHeap (sampleBlock ''root'' ''counter'')
             [StateReport Registration ''root.counter'' ''value'' (Some ''r1'')]
             (initialContext (sampleBlock ''root'' ''counter''))))
     = [StateReport Registration ''root'' ''counter'' None]"
proof -
  let ?b = "sampleBlock ''root'' ''counter'' :: (string, unit) StateBuildingBlock"
  have h: "\<not> isDestroyed (initialContext ?b)" by (simp add: initialContext_def)
  have cid: "contextId ?b = ''root.counter''" by (simp add: contextId_def sampleBlock_def)
  show ?thesis
    using h
      registration_carries_composite[OF h, of ?b sampleCollaborators sampleHeap "[(Registration, ''value'', Some ''r1'')]"
            "(Registration, ''child'', Some ''r2'')"]
      registration_carries_composite[OF h, of ?b sampleCollaborators sampleHeap "[(Registration, ''value'', Some ''r1'')]"
            "(Deregistration, ''value'', None)"]
    by (simp add: sampleBlock_fields Let_def addressedTo_def foldReports_def
          sampleCollaborators_def initialContext_def)
qed

section \<open>The state of a context\<close>

lemma react_state:
  assumes "\<not> isDestroyed c"
  shows "fst (react E H b (State (parentContextId b) s) c) =
     (let state = extractState H b (getProperty H s (key b)) in
      if hasKey c \<and> shallowEqual H (lastKey c) state then c
      else c\<lparr>hasKey := True, lastKey := state, subjectValue := state,
             emitted := emitted c @ [state]\<rparr>)"
  using assms by (simp add: react_defs)

text \<open>
  C5. A state notification addressed to the parent of a live context: the value computed
  for the context is the default state when the slice at \<open>key\<close> is undefined, the nested
  value at \<open>stateKey\<close> when the slice has a defined one, and the whole slice otherwise.
  It becomes the value of the subject unless \<open>distinctUntilChanged\<close> holds it back as
  shallowly equal to the last value passed, in which case the subject keeps its value.
\<close>

theorem state_derivation:
  assumes "\<not> isDestroyed c"
  shows "let slice = getProperty H s (key b);
             state = (if slice = None then defaultState b
                      else if getProperty H (the slice) (stateKey b) \<noteq> None
                           then getProperty H (the slice) (stateKey b)
                           else slice)
         in extractState H b slice = state \<and>
            subjectValue (fst (react E H b (State (parentContextId b) s) c)) =
              (if hasKey c \<and> shallowEqual H (lastKey c) state then subjectValue c else state)"
proof -
  have "extractState H b (getProperty H s (key b)) =
         (if getProperty H s (key b) = None then defaultState b
          else if getProperty H (the (getProperty H s (key b))) (stateKey b) \<noteq> None
               then getProperty H (the (getProperty H s (key b))) (stateKey b)
               else getProperty H s (key b))"
    by (auto simp: extractState_def split: option.splits)
  then show ?thesis using react_state[OF assms, of E H b s] by (simp add: Let_def)
qed

theorem state_derivation_witness:
  "\<not> isDestroyed (initialContext (sampleBlock ''root'' ''counter'')) \<and>
   subjectValue (fst (react sampleCollaborators sampleHeap (sampleBlock ''root'' ''counter'')
      (State ''root'' (Ref 0)) (initialContext (sampleBlock ''root'' ''counter'')))) = Some (Ref 3) \<and>
   subjectValue (fst (react sampleCollaborators sampleHeap (sampleBlock ''root'' ''counter'')
      (State ''root'' (Ref 2)) (initialContext (sampleBlock ''root'' ''counter'')))) = Some (Ref 4) \<and>
   subjectValue (fst (react sampleCollaborators sampleHeap (sampleBlock ''root'' ''counter'')
      (State ''root'' (Ref 7)) (initialContext (sampleBlock ''root'' ''counter'')))) = Some (Num 0)"
proof -
  let ?b = "sampleBlock ''root'' ''counter'' :: (string, unit) StateBuildingBlock"
  have h: "\<not> isDestroyed (initialContext ?b)" by (simp add: initialContext_def)
  have p: "parentContextId ?b = ''root''" by (simp add: sampleBlock_def)
  show ?thesis
    using h state_derivation[OF h, of sampleHeap "Ref 0" ?b sampleCollaborators]
      state_derivation[OF h, of sampleHeap "Ref 2" ?b sampleCollaborators]
      state_derivation[OF h, of sampleHeap "Ref 7" ?b sampleCollaborators]
    by (simp add: sampleBlock_fields Let_def sampleHeap_def initialContext_def getProperty_def)
qed

text \<open>
  C7. Two state notifications addressed to the parent of a context reach it one after the
  other. When the values extracted from them are shallowly equal, identical or not, the
  second one reaches no subscriber and leaves the current state as it is; a value is
  passed to the subscribers on the second one only when it is not shallowly equal to the
  value extracted from the first.
\<close>

theorem shallow_equal_suppressed:
  "let c1 = fst (react E H b (State (parentContextId b) s1) c);
       c2 = fst (react E H b (State (parentContextId b) s2) c1);
       v1 = extractState H b (getProperty H s1 (key b));
       v2 = extractState H b (getProperty H s2 (key b))
   in (shallowEqual H v1 v2 \<longrightarrow> emitted c2 = emitted c1 \<and> subjectValue c2 = subjectValue c1) \<and>
      (emitted c2 \<noteq> emitted c1 \<longrightarrow> emitted c2 = emitted c1 @ [v2] \<and> \<not> shallowEqual H v1 v2)"
proof (cases "isDestroyed c")
  case True
  then show ?thesis by (simp add: react_destroyed Let_def)
next
  case False
  let ?v1 = "extractState H b (getProperty H s1 (key b))"
  let ?v2 = "extractState H b (getProperty H s2 (key b))"
  let ?c1 = "fst (react E H b (State (parentContextId b) s1) c)"
  have c1: "\<not> isDestroyed ?c1" and k1: "hasKey ?c1" and e1: "shallowEqual H (lastKey ?c1) ?v1"
    using False by (auto simp: react_state Let_def shallowEqual_refl)
  have imp: "shallowEqual H ?v1 ?v2 \<Longrightarrow> shallowEqual H (lastKey ?c1) ?v2"
    using e1 shallowEqual_trans by blast
  show ?thesis
    using imp k1 unfolding Let_def react_state[OF c1, of E H b s2]
    by (auto simp: Let_def)
qed

theorem shallow_equal_suppressed_witness:
  "extractState sampleHeap (sampleBlock ''root'' ''counter'')
       (getProperty sampleHeap (Ref 0) ''counter'') = Some (Ref 3) \<and>
   extractState sampleHeap (sampleBlock ''root'' ''counter'')
       (getProperty sampleHeap (Ref 2) ''counter'') = Some (Ref 4) \<and>
   shallowEqual sampleHeap (Some (Ref 3)) (Some (Ref 4)) \<and>
   emitted (fst (react sampleCollaborators sampleHeap (sampleBlock ''root'' ''counter'')
             (State ''root'' (Ref 2))
             (fst (react sampleCollaborators sampleHeap (sampleBlock ''root'' ''counter'')
                (State ''root'' (Ref 0)) (initialContext (sampleBlock ''root'' ''counter''))))))
     = emitted (fst (react sampleCollaborators sampleHeap (sampleBlock ''root'' ''counter'')
                (State ''root'' (Ref 0)) (initialContext (sampleBlock ''root'' ''counter''))))"
proof -
  let ?b = "sampleBlock ''root'' ''counter'' :: (string, unit) StateBuildingBlock"
  have p: "parentContextId ?b = ''root''" and k: "key ?b = ''counter''"
    by (simp_all add: sampleBlock_def)
  have v1: "extractState sampleHeap ?b (getProperty sampleHeap (Ref 0) ''counter'') = Some (Ref 3)"
    by (simp add: extractState_def getProperty_def sampleHeap_def sampleBlock_fields)
  have v2: "extractState sampleHeap ?b (getProperty sampleHeap (Ref 2) ''counter'') = Some (Ref 4)"
    by (simp add: extractState_def getProperty_def sampleHeap_def sampleBlock_fields)
  have se: "shallowEqual sampleHeap (Some (Ref 3)) (Some (Ref 4))"
    by (simp add: shallowEqual_def objectKeys_def hasOwnProperty_def getProperty_def sampleHeap_def)
  show ?thesis
    using shallow_equal_suppressed[of sampleCollaborators sampleHeap ?b "Ref 0" "initialContext ?b" "Ref 2"] v1 v2 se
    by (simp add: sampleBlock_fields Let_def)
qed

text \<open>
  C8. A live context republishes the slice it receives, as a state notification tagged
  with its own identity, exactly when the slice is defined, has a key, and its keys are
  not the state key alone; otherwise it publishes nothing.
\<close>

theorem republish_unless_single_level:
  assumes "\<not> isDestroyed c"
  shows "let slice = getProperty H s (key b) in
         snd (react E H b (State (parentContextId b) s) c) =
           (if slice \<noteq> None \<and> objectKeys H (the slice) \<noteq> []
                 \<and> objectKeys H (the slice) \<noteq> [stateKey b]
            then [State (contextId b) (the slice)] else [])"
proof -
  have "length ks = 1 \<and> ks ! 0 = k \<longleftrightarrow> ks = [k]" for ks :: "string list" and k
    by (cases ks) auto
  then show ?thesis using assms 
    by (auto simp: react_defs split: option.splits)
qed

theorem republish_unless_single_level_witness:
  "\<not> isDestroyed (initialContext (sampleBlock ''root'' ''counter'')) \<and>
   snd (react sampleCollaborators sampleHeap (sampleBlock ''root'' ''counter'')
      (State ''root'' (Ref 6)) (initialContext (sampleBlock ''root'' ''counter'')))
     = [State ''root.counter'' (Ref 5)] \<and>
   snd (react sampleCollaborators sampleHeap (sampleBlock ''root'' ''counter'')
      (State ''root'' (Ref 0)) (initialContext (sampleBlock ''root'' ''counter''))) = [] \<and>
   snd (react sampleCollaborators sampleHeap (sampleBlock ''root'' ''counter'')
      (State ''root'' (Ref 7)) (initialContext (sampleBlock ''root'' ''counter''))) = []"
proof -
  let ?b = "sampleBlock ''root'' ''counter'' :: (string, unit) StateBuildingBlock"
  have h: "\<not> isDestroyed (initialContext ?b)" by (simp add: initialContext_def)
  have p: "parentContextId ?b = ''root''" and cid: "contextId ?b = ''root.counter''"
    by (simp_all add: sampleBlock_def contextId_def)
  show ?thesis
    using h republish_unless_single_level[OF h, of sampleHeap "Ref 6" ?b sampleCollaborators]
      republish_unless_single_level[OF h, of sampleHeap "Ref 0" ?b sampleCollaborators]
      republish_unless_single_level[OF h, of sampleHeap "Ref 7" ?b sampleCollaborators]
    by (simp add: sampleBlock_fields Let_def sampleHeap_def getProperty_def objectKeys_def)
qed

section \<open>Destruction\<close>

text \<open>
  C10. Once the destruction notification carrying the identity of a context has reached
  it, the context is destroyed, and whatever reaches it later, a destruction notification
  carrying the identity of its parent makes it publish nothing: its \<open>destroy\<close> is
  not called again by the cascade.
\<close>

theorem no_cascade_after_own_destruction:
  "isDestroyed (fst (react E H b (Destruction (contextId b)) c)) \<and>
   (\<forall>ns. react E H b (Destruction (parentContextId b))
            (reactions E H b ns (fst (react E H b (Destruction (contextId b)) c)))
         = (fst (react E H b (Destruction (contextId b)) c), []))"
proof -
  let ?c1 = "fst (react E H b (Destruction (contextId b)) c)"
  have d: "isDestroyed ?c1"
    by (simp add: react_def Let_def createIsDestroyed_def)
  then show ?thesis by (simp add: reactions_destroyed react_destroyed)
qed

section \<open>What a publication leaves alone\<close>

lemma publish_rel_any:
  fixes R :: "('r, 'a) hub \<Rightarrow> ('r, 'a) hub \<Rightarrow> bool"
  assumes refl: "\<And>h. R h h"
    and trans: "\<And>h1 h2 h3. R h1 h2 \<Longrightarrow> R h2 h3 \<Longrightarrow> R h1 h3"
    and tr: "\<And>h n. R h (h\<lparr>trace := trace h @ [n]\<rparr>)"
    and re: "\<And>h i n. i < length bs \<Longrightarrow>
               R h (h\<lparr>contexts := (contexts h)(i := fst (react E H (bs ! i) n (contexts h i)))\<rparr>)"
  shows "R h (publish E H bs n h)"
    and "R h (deliver E H bs n is h)"
    and "R h (publishAll E H bs ps h)"
proof -
  note r = publish_rel[where R = R and K = "\<lambda>n. True" and Q = "\<lambda>n. True" and bs = bs and E = E
      and H = H, OF refl trans _ tr re]
  show "R h (publish E H bs n h)" by (rule r(1)) simp_all
  show "R h (deliver E H bs n is h)" by (rule r(2)) simp_all
  show "R h (publishAll E H bs ps h)" by (rule r(3)) simp_all
qed

lemma destroyed_unchanged:
  assumes "isDestroyed (contexts h j)"
  shows "contexts (publish E H bs n h) j = contexts h j"
    and "contexts (deliver E H bs n is h) j = contexts h j"
    and "contexts (publishAll E H bs ps h) j = contexts h j"
proof -
  let ?R = "\<lambda>h h' :: ('a, 'b) hub. isDestroyed (contexts h j) \<longrightarrow> contexts h' j = contexts h j"
  have r: "?R h (publish E H bs n h)" "?R h (deliver E H bs n is h)" "?R h (publishAll E H bs ps h)"
    for h n "is" ps
    by (rule publish_rel_any[where R = ?R]; simp add: react_destroyed)+
  show "contexts (publish E H bs n h) j = contexts h j"
    and "contexts (deliver E H bs n is h) j = contexts h j"
    and "contexts (publishAll E H bs ps h) j = contexts h j"
    using r assms by blast+
qed

lemma trace_extends:
  shows "\<exists>xs. trace (publish E H bs n h) = trace h @ n # xs"
    and "\<exists>xs. trace (deliver E H bs n is h) = trace h @ xs"
    and "\<exists>xs. trace (publishAll E H bs ps h) = trace h @ xs"
proof -
  let ?R = "\<lambda>h h' :: ('a, 'b) hub. \<exists>xs. trace h' = trace h @ xs"
  have r: "?R h (deliver E H bs n is h)" "?R h (publishAll E H bs ps h)" for h n "is" ps
    by (rule publish_rel_any[where R = ?R]; auto)+
  show "\<exists>xs. trace (deliver E H bs n is h) = trace h @ xs"
    and "\<exists>xs. trace (publishAll E H bs ps h) = trace h @ xs"
    using r by blast+
  show "\<exists>xs. trace (publish E H bs n h) = trace h @ n # xs"
    using r(1)[of n "[0..<length bs]" "h\<lparr>trace := trace h @ [n]\<rparr>"]
    by (simp add: publish.simps)
qed

lemma step_keeps_destroyed:
  assumes "isDestroyed (contextOf s j)" and "j < length (fst s)"
  shows "contextOf (step E H call s) j = contextOf s j \<and> j < length (fst (step E H call s))"
proof (cases call)
  case (Create b)
  let ?h0 = "(snd s)\<lparr>contexts := (contexts (snd s))(length (fst s) := initialContext b)\<rparr>"
  have "isDestroyed (contexts ?h0 j)" and "contexts ?h0 j = contexts (snd s) j"
    using assms by (simp_all add: contextOf_def)
  then show ?thesis using Create assms(2)
    by (simp add: createStateContext_def Let_def contextOf_def destroyed_unchanged)
next
  case (Destroy i)
  then show ?thesis using assms by (simp add: destroy_def contextOf_def destroyed_unchanged)
next
  case (Dispatch i a r)
  then show ?thesis using assms by (simp add: dispatch_def contextOf_def destroyed_unchanged)
next
  case (Publish n)
  then show ?thesis using assms by (simp add: contextOf_def destroyed_unchanged)
qed

lemma run_keeps_destroyed:
  "isDestroyed (contextOf s j) \<Longrightarrow> j < length (fst s) \<Longrightarrow> contextOf (run E H calls s) j = contextOf s j"
  unfolding run_def
proof (induction calls arbitrary: s)
  case Nil
  then show ?case by simp
next
  case (Cons c cs)
  from step_keeps_destroyed[OF Cons.prems, of E H c]
  have 1: "contextOf (step E H c s) j = contextOf s j" and 2: "j < length (fst (step E H c s))"
    by simp_all
  have "isDestroyed (contextOf (step E H c s) j)" using 1 Cons.prems(1) by simp
  from Cons.IH[OF this 2] 1 show ?case by simp
qed

lemma destroy_notifications_counted:
  fixes b0 :: "('r, 'o) StateBuildingBlock" and h :: "('r, 'a) hub"
  defines "dereg \<equiv> StateReport Deregistration (parentContextId b0) (key b0) None"
    and "destr \<equiv> Destruction (contextId b0)"
  shows "count_list (trace (publishAll E H bs (createDestroy b0 (contextId b0)) h)) dereg
           = Suc (count_list (trace h) dereg)
       \<and> count_list (trace (publishAll E H bs (createDestroy b0 (contextId b0)) h)) destr
           = Suc (count_list (trace h) destr)"
proof -
  let ?K = "\<lambda>n :: ('r, 'a) notification.
              case n of Destruction c \<Rightarrow> length (contextId b0) \<le> length c | _ \<Rightarrow> True"
  let ?Q = "\<lambda>n :: ('r, 'a) notification. n \<noteq> dereg \<and> n \<noteq> destr"
  let ?R = "\<lambda>h h' :: ('r, 'a) hub.
              count_list (trace h') dereg = count_list (trace h) dereg
            \<and> count_list (trace h') destr = count_list (trace h) destr"
  have closed: "?K p \<and> ?Q p"
    if "i < length bs" "?K n" "p \<in> set (snd (react E H (bs ! i) n c))" for i n c p
    using that parent_shorter[of b0] parent_shorter[of "bs ! i"]
    by (auto simp: react_defs dereg_def destr_def
          split: notification.splits if_splits option.splits)
  have d: "?R h (deliver E H bs n is h)" if "?K n" for n "is" h
    by (rule publish_rel(2)[where R = ?R and K = ?K and Q = ?Q and bs = bs and E = E and H = H])
      (use that closed in \<open>auto\<close>)
  let ?h1 = "publish E H bs dereg h"
  have 1: "count_list (trace ?h1) dereg = Suc (count_list (trace h) dereg)
         \<and> count_list (trace ?h1) destr = count_list (trace h) destr"
    using d[of dereg "[0..<length bs]" "h\<lparr>trace := trace h @ [dereg]\<rparr>"]
    by (simp add: dereg_def destr_def publish.simps)
  have 2: "count_list (trace (publish E H bs destr ?h1)) dereg = count_list (trace ?h1) dereg
         \<and> count_list (trace (publish E H bs destr ?h1)) destr = Suc (count_list (trace ?h1) destr)"
    using d[of destr "[0..<length bs]" "?h1\<lparr>trace := trace ?h1 @ [destr]\<rparr>"]
    by (simp add: dereg_def destr_def publish.simps)
  show ?thesis using 1 2 by (simp add: createDestroy_def dereg_def destr_def)
qed

text \<open>
  C1. Every call of \<open>destroy\<close>, on a live context or on a destroyed one, publishes
  one deregistration for the context's key under its parent and one destruction
  notification carrying its identity, and nothing that follows from them is either of the
  two: after two calls the trace holds two more of each.
\<close>

theorem destroy_publishes_every_time:
  "let b = fst s ! i;
       dereg = StateReport Deregistration (parentContextId b) (key b) None;
       destr = Destruction (contextId b);
       s2 = destroy E H i (destroy E H i s)
   in count_list (trace (snd s2)) dereg = count_list (trace (snd s)) dereg + 2 \<and>
      count_list (trace (snd s2)) destr = count_list (trace (snd s)) destr + 2"
  using destroy_notifications_counted[of E H "fst s" "fst s ! i" "snd s"]
    destroy_notifications_counted[of E H "fst s" "fst s ! i" "snd (destroy E H i s)"]
  by (simp add: Let_def destroy_def)

text \<open>
  One context under \<open>root\<close>, destroyed twice: the trace holds two deregistrations and
  two destruction notifications, not one of each.
\<close>

theorem destroy_twice_counterexample:
  "count_list
     (trace (snd (destroy sampleCollaborators sampleHeap 0
        (destroy sampleCollaborators sampleHeap 0
          (createStateContext sampleCollaborators sampleHeap (sampleBlock ''root'' ''counter'')
             emptySystem)))))
     (StateReport Deregistration ''root'' ''counter'' None) = 2
   \<and> count_list
     (trace (snd (destroy sampleCollaborators sampleHeap 0
        (destroy sampleCollaborators sampleHeap 0
          (createStateContext sampleCollaborators sampleHeap (sampleBlock ''root'' ''counter'')
             emptySystem)))))
     (Destruction ''root.counter'') = 2
   \<and> trace (snd (destroy sampleCollaborators sampleHeap 0
      (destroy sampleCollaborators sampleHeap 0
        (createStateContext sampleCollaborators sampleHeap (sampleBlock ''root'' ''counter'')
           emptySystem))))
   = [StateReport Registration ''root.counter'' ''value'' (Some ''counter''),
      StateReport Registration ''root'' ''counter'' (Some ''value''),
      StateReport Deregistration ''root'' ''counter'' None, Destruction ''root.counter'',
      StateReport Deregistration ''root'' ''counter'' None, Destruction ''root.counter'']"
  by code_simp

section \<open>Dispatching\<close>

lemma react_dispatch:
  "react E H b (DispatchingAction p a) c =
     (c, if \<not> isDestroyed c \<and> p = contextId b then [DispatchingAction (parentContextId b) a] else [])"
  by (simp add: react_defs)

lemma dispatch_only:
  shows "isDispatch n \<Longrightarrow> contexts (deliver E H bs n is h) = contexts h
       \<and> (\<exists>xs. trace (deliver E H bs n is h) = trace h @ xs \<and> (\<forall>x\<in>set xs. isDispatch x))"
    and "\<forall>p\<in>set ps. isDispatch p \<Longrightarrow> contexts (publishAll E H bs ps h) = contexts h
       \<and> (\<exists>xs. trace (publishAll E H bs ps h) = trace h @ xs \<and> (\<forall>x\<in>set xs. isDispatch x))"
proof -
  let ?R = "\<lambda>h h' :: ('a, 'b) hub. contexts h' = contexts h
       \<and> (\<exists>xs. trace h' = trace h @ xs \<and> (\<forall>x\<in>set xs. isDispatch x))"
  have closed: "isDispatch p \<and> isDispatch p"
    if "isDispatch n" "p \<in> set (snd (react E H (bs ! i) n c))" for i n c p
    using that by (cases n) (auto simp: isDispatch_def react_dispatch split: if_splits)
  have re: "?R h (h\<lparr>contexts := (contexts h)(i := fst (react E H (bs ! i) n (contexts h i)))\<rparr>)"
    if "isDispatch n" for h :: "('a, 'b) hub" and i n
    using that by (cases n) (auto simp: isDispatch_def react_dispatch)
  have tr: "?R h (h\<lparr>trace := trace h @ [n]\<rparr>)" if "isDispatch n" for h :: "('a, 'b) hub" and n
    using that by simp
  have trans: "?R h1 h3" if "?R h1 h2" "?R h2 h3" for h1 h2 h3 :: "('a, 'b) hub"
  proof -
    from that obtain xs ys where "trace h2 = trace h1 @ xs" "\<forall>x\<in>set xs. isDispatch x"
      "trace h3 = trace h2 @ ys" "\<forall>x\<in>set ys. isDispatch x" by blast
    then have "trace h3 = trace h1 @ (xs @ ys) \<and> (\<forall>x\<in>set (xs @ ys). isDispatch x)" by auto
    then show ?thesis using that by metis
  qed
  note r = publish_rel[where R = ?R and K = isDispatch and Q = isDispatch and bs = bs and E = E
      and H = H, OF _ trans closed tr re]
  show "isDispatch n \<Longrightarrow> ?R h (deliver E H bs n is h)" by (intro r(2)) auto
  show "\<forall>p\<in>set ps. isDispatch p \<Longrightarrow> ?R h (publishAll E H bs ps h)"
    by (intro r(3)) auto
qed

lemma publish_dispatch:
  "contexts (publish E H bs (DispatchingAction p a) h) = contexts h"
  "\<exists>rest. trace (publish E H bs (DispatchingAction p a) h) = trace h @ DispatchingAction p a # rest
          \<and> (\<forall>x\<in>set rest. isDispatch x)"
  using dispatch_only(1)[of "DispatchingAction p a" E H bs "[0..<length bs]"
      "h\<lparr>trace := trace h @ [DispatchingAction p a]\<rparr>"]
  by (auto simp: isDispatch_def publish.simps)

lemma deliver_mirror:
  assumes "j \<in> set is" and "j < length bs" and "\<not> isDestroyed (contexts h j)"
  shows "\<exists>pre post. trace (deliver E H bs (DispatchingAction (contextId (bs ! j)) a) is h)
           = trace h @ pre @ DispatchingAction (parentContextId (bs ! j)) a # post"
  using assms
proof (induction "is" arbitrary: h)
  case Nil
  then show ?case by simp
next
  case (Cons i "is")
  let ?n = "DispatchingAction (contextId (bs ! j)) a :: ('a, 'c) notification"
  let ?m = "DispatchingAction (parentContextId (bs ! j)) a :: ('a, 'c) notification"
  show ?case
  proof (cases "i = j")
    case True
    let ?h2 = "publish E H bs ?m h"
    have d: "deliver E H bs ?n (i # is) h = deliver E H bs ?n is ?h2"
      using True Cons.prems by (simp add: react_dispatch)
    obtain xs where xs: "trace ?h2 = trace h @ ?m # xs" using trace_extends(1) by blast
    obtain ys where "trace (deliver E H bs ?n is ?h2) = trace ?h2 @ ys"
      using trace_extends(2) by blast
    then have "trace (deliver E H bs ?n (i # is) h) = trace h @ [] @ ?m # (xs @ ys)"
      using d xs by simp
    then show ?thesis by blast
  next
    case False
    show ?thesis
    proof (cases "i < length bs")
      case True
      obtain ps where r: "react E H (bs ! i) ?n (contexts h i) = (contexts h i, ps)"
        and ps: "\<forall>p\<in>set ps. isDispatch p"
        by (auto simp: react_dispatch isDispatch_def)
      let ?h2 = "publishAll E H bs ps h"
      have d: "deliver E H bs ?n (i # is) h = deliver E H bs ?n is ?h2"
        using True r by simp
      from dispatch_only(2)[OF ps, of E H bs h] obtain xs
        where c: "contexts ?h2 = contexts h" and xs: "trace ?h2 = trace h @ xs" by blast
      have "j \<in> set is" using Cons.prems False by simp
      from Cons.IH[OF this Cons.prems(2), of ?h2] c Cons.prems(3)
      obtain pre post where "trace (deliver E H bs ?n is ?h2) = trace ?h2 @ pre @ ?m # post"
        by auto
      then have "trace (deliver E H bs ?n (i # is) h) = trace h @ (xs @ pre) @ ?m # post"
        using d xs by simp
      then show ?thesis by blast
    next
      case f: False
      have "j \<in> set is" using Cons.prems False by simp
      from Cons.IH[OF this Cons.prems(2) Cons.prems(3)] f show ?thesis by simp
    qed
  qed
qed

text \<open>
  C3. \<open>dispatch\<close> called on a destroyed context still publishes the action, tagged
  when asked, addressed to the parent, and a running context with the parent's identity
  forwards it to its own parent. The destroyed context itself no longer forwards a
  dispatch notification addressed to it, and neither the call nor anything that happens
  afterwards changes its state or reaches its subscribers.
\<close>

theorem dispatch_on_destroyed_context:
  assumes "i < length (fst s)" and "isDestroyed (contextOf s i)"
  shows "let b = fst s ! i;
             action = (if r then withRoute E (contextId b) a else a);
             sent = DispatchingAction (parentContextId b) action;
             s' = dispatch E H i a r s
         in (\<exists>rest. trace (snd s') = trace (snd s) @ sent # rest)
          \<and> (\<forall>j<length (fst s).
                contextId (fst s ! j) = parentContextId b \<and> \<not> isDestroyed (contextOf s j) \<longrightarrow>
                (\<exists>pre post. trace (snd s')
                   = trace (snd s) @ sent # pre
                     @ DispatchingAction (parentContextId (fst s ! j)) action # post))
          \<and> react E H b (DispatchingAction (contextId b) a') (contextOf s i) = (contextOf s i, [])
          \<and> (\<forall>calls. contextOf (run E H calls s') i = contextOf s i)"
proof -
  let ?b = "fst s ! i"
  let ?act = "if r then withRoute E (contextId ?b) a else a"
  let ?sent = "DispatchingAction (parentContextId ?b) ?act"
  let ?s' = "dispatch E H i a r s"
  have s': "?s' = (fst s, publish E H (fst s) ?sent (snd s))"
    by (simp add: dispatch_def createDispatch_def)
  have 1: "\<exists>rest. trace (snd ?s') = trace (snd s) @ ?sent # rest"
    unfolding s' using trace_extends(1)[of E H "fst s" ?sent "snd s"] by simp
  have 2: "\<exists>pre post. trace (snd ?s')
             = trace (snd s) @ ?sent # pre
               @ DispatchingAction (parentContextId (fst s ! j)) ?act # post"
    if j: "j < length (fst s)" and p: "contextId (fst s ! j) = parentContextId ?b"
      and l: "\<not> isDestroyed (contextOf s j)" for j
  proof -
    let ?h0 = "(snd s)\<lparr>trace := trace (snd s) @ [?sent]\<rparr>"
    have "j \<in> set [0..<length (fst s)]" using j by simp
    from deliver_mirror[OF this j, of ?h0 E H ?act] l
    show ?thesis unfolding s' p by (simp add: contextOf_def publish.simps)
  qed
  have 3: "react E H ?b (DispatchingAction (contextId ?b) a') (contextOf s i) = (contextOf s i, [])"
    using assms(2) by (simp add: react_destroyed)
  have same: "contextOf ?s' i = contextOf s i"
    unfolding s' using assms(2) by (simp add: contextOf_def destroyed_unchanged)
  have "isDestroyed (contextOf ?s' i)" and "i < length (fst ?s')"
    using same assms by (simp_all add: s')
  then have 4: "contextOf (run E H calls ?s') i = contextOf s i" for calls
    using run_keeps_destroyed[of ?s' i E H calls] same by simp
  show ?thesis unfolding Let_def using 1 2 3 4 by blast
qed

theorem dispatch_on_destroyed_context_witness:
  "2 < length (fst (destroy sampleCollaborators sampleHeap 2 sampleTree))
   \<and> isDestroyed (contextOf (destroy sampleCollaborators sampleHeap 2 sampleTree) 2)
   \<and> \<not> isDestroyed (contextOf (destroy sampleCollaborators sampleHeap 2 sampleTree) 1)
   \<and> trace (snd (dispatch sampleCollaborators sampleHeap 2 ''INC'' True
               (destroy sampleCollaborators sampleHeap 2 sampleTree)))
       = trace (snd (destroy sampleCollaborators sampleHeap 2 sampleTree))
         @ [DispatchingAction ''root.p.c'' ''root.p.c.g#INC'',
            DispatchingAction ''root.p'' ''root.p.c.g#INC'',
            DispatchingAction ''root'' ''root.p.c.g#INC'']
   \<and> contextOf (run sampleCollaborators sampleHeap [Publish (State ''root.p.c'' (Ref 0))]
        (dispatch sampleCollaborators sampleHeap 2 ''INC'' True
           (destroy sampleCollaborators sampleHeap 2 sampleTree))) 2
       = contextOf (destroy sampleCollaborators sampleHeap 2 sampleTree) 2"
proof -
  let ?s = "destroy sampleCollaborators sampleHeap 2 sampleTree"
  have l: "2 < length (fst ?s)" by code_simp
  have h: "isDestroyed (contextOf ?s 2)" by code_simp
  have p: "\<not> isDestroyed (contextOf ?s 1)" by code_simp
  have t: "trace (snd (dispatch sampleCollaborators sampleHeap 2 ''INC'' True ?s))
       = trace (snd ?s)
         @ [DispatchingAction ''root.p.c'' ''root.p.c.g#INC'',
            DispatchingAction ''root.p'' ''root.p.c.g#INC'',
            DispatchingAction ''root'' ''root.p.c.g#INC'']" by code_simp
  have "\<forall>calls. contextOf (run sampleCollaborators sampleHeap calls
           (dispatch sampleCollaborators sampleHeap 2 ''INC'' True ?s)) 2 = contextOf ?s 2"
    using dispatch_on_destroyed_context[OF l h, of True sampleCollaborators "''INC''" sampleHeap]
    unfolding Let_def by blast
  then show ?thesis using l h p t by simp
qed

text \<open>
  The child of a running parent is destroyed and then dispatches: the action is published
  to the parent, which forwards it, so the call is observable on the dispatching channel.
\<close>

theorem dispatch_after_destroy_counterexample:
  "isDestroyed (contextOf (run sampleCollaborators sampleHeap
       [Create (sampleBlock ''root'' ''p''), Create (sampleBlock ''root.p'' ''c''), Destroy 1]
       emptySystem) 1) \<and>
   trace (snd (dispatch sampleCollaborators sampleHeap 1 ''INC'' False
      (run sampleCollaborators sampleHeap
       [Create (sampleBlock ''root'' ''p''), Create (sampleBlock ''root.p'' ''c''), Destroy 1]
       emptySystem)))
   = trace (snd (run sampleCollaborators sampleHeap
       [Create (sampleBlock ''root'' ''p''), Create (sampleBlock ''root.p'' ''c''), Destroy 1]
       emptySystem))
     @ [DispatchingAction ''root.p'' ''INC'', DispatchingAction ''root'' ''INC'']"
  by code_simp

text \<open>
  C9. \<open>dispatch(a, routeToSelf)\<close> of a live context publishes first a dispatch
  notification addressed to its parent that carries \<open>a\<close> tagged with the context's
  identity when \<open>routeToSelf\<close> is true and \<open>a\<close> itself otherwise. A dispatch
  notification addressed to the context makes it publish the same action, as it is,
  addressed to its parent, and that notification follows in the trace.
\<close>

theorem dispatch_forwarding:
  assumes "i < length (fst s)" and "\<not> isDestroyed (contextOf s i)"
  shows "let b = fst s ! i; cid = contextId b in
      (\<exists>rest. trace (snd (dispatch E H i a r s))
                = trace (snd s)
                  @ DispatchingAction (parentContextId b) (if r then withRoute E cid a else a) # rest)
    \<and> snd (react E H b (DispatchingAction cid a') (contextOf s i))
        = [DispatchingAction (parentContextId b) a']
    \<and> (\<exists>pre post. trace (publish E H (fst s) (DispatchingAction cid a') (snd s))
          = trace (snd s) @ DispatchingAction cid a' # pre
            @ DispatchingAction (parentContextId b) a' # post)"
proof -
  let ?b = "fst s ! i"
  have 1: "\<exists>rest. trace (snd (dispatch E H i a r s))
                = trace (snd s)
                  @ DispatchingAction (parentContextId ?b) (if r then withRoute E (contextId ?b) a else a) # rest"
    using publish_dispatch(2)[of E H "fst s" "parentContextId ?b"
        "if r then withRoute E (contextId ?b) a else a" "snd s"]
    by (auto simp: dispatch_def createDispatch_def)
  have 2: "snd (react E H ?b (DispatchingAction (contextId ?b) a') (contextOf s i))
        = [DispatchingAction (parentContextId ?b) a']"
    using assms(2) by (simp add: react_dispatch)
  let ?h0 = "(snd s)\<lparr>trace := trace (snd s) @ [DispatchingAction (contextId ?b) a']\<rparr>"
  have "i \<in> set [0..<length (fst s)]" using assms(1) by simp
  from deliver_mirror[OF this assms(1), of ?h0 E H a'] assms(2)
  have 3: "\<exists>pre post. trace (publish E H (fst s) (DispatchingAction (contextId ?b) a') (snd s))
          = trace (snd s) @ DispatchingAction (contextId ?b) a' # pre
            @ DispatchingAction (parentContextId ?b) a' # post"
    by (simp add: contextOf_def publish.simps)
  show ?thesis using 1 2 3 by (simp add: Let_def)
qed

theorem dispatch_forwarding_witness:
  "1 < length (fst sampleTree) \<and> \<not> isDestroyed (contextOf sampleTree 1)
   \<and> fst sampleTree ! 1 = sampleBlock ''root.p'' ''c''
   \<and> trace (snd (dispatch sampleCollaborators sampleHeap 1 ''INC'' True sampleTree))
       = trace (snd sampleTree)
         @ [DispatchingAction ''root.p'' ''root.p.c#INC'', DispatchingAction ''root'' ''root.p.c#INC'']
   \<and> snd (react sampleCollaborators sampleHeap (sampleBlock ''root.p'' ''c'')
            (DispatchingAction ''root.p.c'' ''INC'') (contextOf sampleTree 1))
       = [DispatchingAction ''root.p'' ''INC'']"
proof -
  have a: "1 < length (fst sampleTree)" by code_simp
  have b: "\<not> isDestroyed (contextOf sampleTree 1)" by code_simp
  have c: "fst sampleTree ! 1 = sampleBlock ''root.p'' ''c''" by code_simp
  have t: "trace (snd (dispatch sampleCollaborators sampleHeap 1 ''INC'' True sampleTree))
       = trace (snd sampleTree)
         @ [DispatchingAction ''root.p'' ''root.p.c#INC'', DispatchingAction ''root'' ''root.p.c#INC'']"
    by code_simp
  show ?thesis
    using a b c t dispatch_forwarding[OF a b, of sampleCollaborators sampleHeap "''INC''" True "''INC''"]
    by (simp add: Let_def sampleBlock_fields)
qed

section \<open>The current state is never undefined\<close>

lemma statesDefined_iff:
  "statesDefined bs h \<longleftrightarrow>
     (\<forall>i<length bs. defaultState (bs ! i) \<noteq> None \<longrightarrow> subjectValue (contexts h i) \<noteq> None)"
  by (auto simp: statesDefined_def list_all_iff)

lemma extractState_defined: "defaultState b \<noteq> None \<Longrightarrow> extractState H b v \<noteq> None"
  by (auto simp: extractState_def split: option.splits)

lemma react_value_defined:
  assumes "defaultState b \<noteq> None" and "subjectValue c \<noteq> None"
  shows "subjectValue (fst (react E H b n c)) \<noteq> None"
proof (cases "isDestroyed c")
  case True
  then show ?thesis using assms by (simp add: react_destroyed)
next
  case False
  show ?thesis
  proof (cases n)
    case (State x s)
    then show ?thesis using assms extractState_defined[OF assms(1)] 
      by (auto simp: react_defs split: if_splits)
  qed (use assms in \<open>auto simp: react_defs split: if_splits\<close>)
qed

lemma statesDefined_preserved:
  fixes h :: "('r, 'a) hub"
  assumes "statesDefined bs h"
  shows "statesDefined bs (publish E H bs n h)"
    and "statesDefined bs (publishAll E H bs ps h)"
proof -
  let ?R = "\<lambda>h h' :: ('r, 'a) hub. statesDefined bs h \<longrightarrow> statesDefined bs h'"
  have re: "?R h (h\<lparr>contexts := (contexts h)(i := fst (react E H (bs ! i) n (contexts h i)))\<rparr>)"
    if "i < length bs" for h :: "('r, 'a) hub" and i n
    unfolding statesDefined_iff using react_value_defined[of "bs ! i" "contexts h i" E H n]
    by (simp del: not_None_eq)
  have tr: "?R h (h\<lparr>trace := trace h @ [n]\<rparr>)" for h :: "('r, 'a) hub" and n
    by (simp add: statesDefined_iff del: not_None_eq)
  have r: "?R h (publish E H bs n h)" "?R h (publishAll E H bs ps h)" for h n ps
    by (rule publish_rel_any[where R = ?R and bs = bs and E = E and H = H, OF _ _ tr re]; blast)+
  show "statesDefined bs (publish E H bs n h)" and "statesDefined bs (publishAll E H bs ps h)"
    using r assms by blast+
qed

lemma react_report_keeps_state:
  "isStateReport n \<Longrightarrow> subjectValue (fst (react E H b n c)) = subjectValue c"
  by (cases n) (auto simp: isStateReport_def react_defs split: if_splits)

lemma reports_keep_state:
  fixes h :: "('r, 'a) hub"
  assumes "\<forall>p\<in>set ps. isStateReport p"
  shows "subjectValue (contexts (publishAll E H bs ps h) j) = subjectValue (contexts h j)"
proof -
  let ?R = "\<lambda>h h' :: ('r, 'a) hub. subjectValue (contexts h' j) = subjectValue (contexts h j)"
  have closed: "isStateReport p \<and> isStateReport p"
    if "isStateReport n" "p \<in> set (snd (react E H (bs ! i) n c))" for i n c p
    using that by (cases n) (auto simp: isStateReport_def react_defs split: if_splits)
  have "?R h (publishAll E H bs ps h)"
    by (rule publish_rel(3)[where R = ?R and K = isStateReport and Q = isStateReport
          and bs = bs and E = E and H = H])
      (use assms closed in \<open>auto simp: react_report_keeps_state\<close>)
  then show ?thesis .
qed

lemma fresh_default:
  "getState (createStateContext E H b s) (length (fst s)) = defaultState b"
proof -
  have "\<forall>p\<in>set (publishStateRegistration E b (contextId b)). isStateReport p"
    by (simp add: publishStateRegistration_def isStateReport_def)
  from reports_keep_state[OF this, where H = H and bs = "fst s @ [b]" and j = "length (fst s)"]
  show ?thesis
    by (simp add: getState_def createStateContext_def Let_def initialContext_def)
qed

lemma step_statesDefined:
  assumes "statesDefined (fst s) (snd s)"
  shows "statesDefined (fst (step E H call s)) (snd (step E H call s))"
proof (cases call)
  case (Create b)
  let ?h0 = "(snd s)\<lparr>contexts := (contexts (snd s))(length (fst s) := initialContext b)\<rparr>"
  have "statesDefined (fst s @ [b]) ?h0"
    using assms by (auto simp: statesDefined_iff nth_append initialContext_def less_Suc_eq)
  then show ?thesis using Create
    by (simp add: createStateContext_def Let_def statesDefined_preserved)
next
  case (Destroy i)
  then show ?thesis using assms by (simp add: destroy_def statesDefined_preserved)
next
  case (Dispatch i a r)
  then show ?thesis using assms by (simp add: dispatch_def statesDefined_preserved)
next
  case (Publish n)
  then show ?thesis using assms by (simp add: statesDefined_preserved)
qed

lemma run_statesDefined:
  "statesDefined (fst s) (snd s) \<Longrightarrow>
     statesDefined (fst (run E H calls s)) (snd (run E H calls s))"
  unfolding run_def by (induction calls arbitrary: s) (simp_all add: step_statesDefined)

text \<open>
  C6. Whatever contexts are created, destroyed or dispatched on and whatever is
  published, starting from no context at all, a context whose default state is defined
  never holds \<open>undefined\<close> as its current state; and a context that has just been created
  holds its default state.
\<close>

theorem state_never_undefined:
  "(let s = run E H calls emptySystem in
      \<forall>i<length (fst s). defaultState (fst s ! i) \<noteq> None \<longrightarrow> getState s i \<noteq> None)
   \<and> getState (createStateContext E H b s0) (length (fst s0)) = defaultState b"
proof -
  have "statesDefined (fst emptySystem) (snd emptySystem)"
    by (simp add: emptySystem_def statesDefined_def)
  from run_statesDefined[OF this, of E H calls] fresh_default[of E H b s0] show ?thesis
    by (simp add: statesDefined_iff getState_def Let_def)
qed

theorem state_never_undefined_witness:
  "0 < length (fst sampleRun) \<and> defaultState (fst sampleRun ! 0) = Some (Num 0)
   \<and> emitted (contextOf sampleRun 0) = [Some (Ref 3), Some (Num 0)]
   \<and> getState sampleRun 0 \<noteq> None"
proof -
  have a: "0 < length (fst sampleRun)" by code_simp
  have b: "defaultState (fst sampleRun ! 0) = Some (Num 0)" by code_simp
  have c: "emitted (contextOf sampleRun 0) = [Some (Ref 3), Some (Num 0)]" by code_simp
  have "getState sampleRun 0 \<noteq> None"
    using state_never_undefined[of sampleCollaborators sampleHeap "[Create (sampleBlock ''root'' ''counter''), Publish (State ''root'' (Ref 0)),
      Publish (State ''root'' (Ref 7))]"] a b
    by (simp add: Let_def sampleRun_def)
  then show ?thesis using a b c by simp
qed

section \<open>The cascade of destruction\<close>

















end
